theory Spec2Isabelle
  imports Complex_Main
begin

section \<open>Data model of \<^verbatim>\<open>deduplicate.py\<close>\<close>

text \<open>
  Python errors that the script can raise, as values.
\<close>

datatype error = ZeroDivisionError | ValueError | IndexError | OSError

text \<open>
  A float64 as the script handles it: either not-a-number or a number. The numbers
  are kept as exact rationals; the rounding of float64 is not part of the model.
  Every ordered comparison with \<open>NaN\<close> is false, as in IEEE 754 and in Python.
\<close>

datatype pyfloat = NaN | Num rat

fun float_lt :: "pyfloat \<Rightarrow> pyfloat \<Rightarrow> bool" where
  "float_lt (Num x) (Num y) = (x < y)"
| "float_lt _ _ = False"

text \<open>
  A record of the corpus as \<^verbatim>\<open>load_dataset\<close> yields it has a \<^verbatim>\<open>text\<close> column, a sequence of
  code points \<open>'c\<close>. \<^verbatim>\<open>ds.map(preprocess)\<close> adds the three columns that \<^verbatim>\<open>preprocess\<close>
  returns: the hash, a digest \<open>'h\<close>, and the two statistics.
\<close>

record 'c raw_example =
  text_col :: "'c list"

record ('c, 'h) example = "'c raw_example" +
  hash :: 'h
  alpha_frac :: pyfloat
  line_len :: "nat list"

text \<open>
  Modelled from the spec: \<^verbatim>\<open>PreprocessingArguments\<close> is declared in \<^verbatim>\<open>arguments.py\<close>, which is
  not among the sources. The fields are the options that the script reads
  (\<^verbatim>\<open>args.alpha_frac\<close>, here \<open>min_alpha_frac\<close>, \<^verbatim>\<open>args.jaccard_threshold\<close>,
  \<^verbatim>\<open>args.samples_per_file\<close>, \<^verbatim>\<open>args.output_dir\<close>) and the compression level that the
  configuration surface of the spec lists; the script never reads the latter.
\<close>

record arguments =
  min_alpha_frac :: pyfloat
  jaccard_threshold :: pyfloat
  samples_per_file :: int
  output_dir :: string
  compression_level :: nat

section \<open>Feature extraction\<close>

text \<open>
  \<^verbatim>\<open>re.sub(PATTERN, "", s)\<close> with \<^verbatim>\<open>PATTERN = re.compile(r"\s+")\<close>: scanning from the left,
  every maximal run of characters of class \<^verbatim>\<open>\s\<close> is replaced by the empty string. The
  character class is a table of the Python runtime and is a parameter here.
\<close>

function re_sub_PATTERN :: "('c \<Rightarrow> bool) \<Rightarrow> 'c list \<Rightarrow> 'c list" where
  "re_sub_PATTERN isspace [] = []"
| "re_sub_PATTERN isspace (c # cs) =
     (if isspace c then re_sub_PATTERN isspace (dropWhile isspace cs)
      else c # re_sub_PATTERN isspace cs)"
  by pat_completeness auto
termination
  by (relation "measure (\<lambda>(isspace, s). length s)")
     (auto simp: length_dropWhile_le less_Suc_eq_le)

text \<open>
  \<^verbatim>\<open>get_hash(example)\<close>: the MD5 hex digest of the UTF-8 encoding of the text without its
  whitespace. \<open>md5\<close> stands for \<^verbatim>\<open>hashlib.md5(s.encode("utf-8")).hexdigest()\<close>.
\<close>

definition get_hash ::
  "('c \<Rightarrow> bool) \<Rightarrow> ('c list \<Rightarrow> 'h) \<Rightarrow> ('c, 'z) raw_example_scheme \<Rightarrow> 'h" where
  "get_hash isspace md5 example = md5 (re_sub_PATTERN isspace (text_col example))"

text \<open>
  \<^verbatim>\<open>np.mean\<close> of a list of booleans: the number of true entries over the length; of the
  empty list it is \<^verbatim>\<open>nan\<close> (numpy warns and does not raise).
\<close>

definition np_mean :: "bool list \<Rightarrow> pyfloat" where
  "np_mean bs =
     (if bs = [] then NaN
      else Num (of_nat (length (filter id bs)) / of_nat (length bs)))"

definition alpha_stats :: "('c \<Rightarrow> bool) \<Rightarrow> ('c, 'z) raw_example_scheme \<Rightarrow> pyfloat" where
  "alpha_stats isalnum example = np_mean (map isalnum (text_col example))"

definition line_stats ::
  "('c list \<Rightarrow> 'c list list) \<Rightarrow> ('c, 'z) raw_example_scheme \<Rightarrow> nat list" where
  "line_stats splitlines example = map length (splitlines (text_col example))"

text \<open>
  \<^verbatim>\<open>preprocess\<close> collects the three results in a dictionary, which \<^verbatim>\<open>ds.map\<close> merges into
  the record.
\<close>

definition preprocess ::
  "('c \<Rightarrow> bool) \<Rightarrow> ('c list \<Rightarrow> 'h) \<Rightarrow> ('c \<Rightarrow> bool) \<Rightarrow> ('c list \<Rightarrow> 'c list list) \<Rightarrow>
   'c raw_example \<Rightarrow> ('c, 'h) example" where
  "preprocess isspace md5 isalnum splitlines example =
     \<lparr>text_col = text_col example,
      hash = get_hash isspace md5 example,
      alpha_frac = alpha_stats isalnum example,
      line_len = line_stats splitlines example\<rparr>"

text \<open>
  The classes of \<^verbatim>\<open>str.isspace\<close> and \<^verbatim>\<open>str.isalnum\<close> on ASCII text, for concrete inputs.
\<close>

definition ascii_isspace :: "char \<Rightarrow> bool" where
  "ascii_isspace c =
     (let n = (of_char c :: nat) in (9 \<le> n \<and> n \<le> 13) \<or> (28 \<le> n \<and> n \<le> 32))"

definition ascii_isalnum :: "char \<Rightarrow> bool" where
  "ascii_isalnum c =
     (let n = (of_char c :: nat) in
        (48 \<le> n \<and> n \<le> 57) \<or> (65 \<le> n \<and> n \<le> 90) \<or> (97 \<le> n \<and> n \<le> 122))"

section \<open>Exact deduplication and the heuristics filter\<close>

text \<open>
  \<^verbatim>\<open>check_uniques(example, uniques)\<close>: the set is mutated in place by the source; the
  model returns the verdict together with the set after the call.
\<close>

definition check_uniques :: "('c, 'h) example \<Rightarrow> 'h set \<Rightarrow> bool \<times> 'h set" where
  "check_uniques example uniques =
     (if hash example \<in> uniques then (True, uniques - {hash example})
      else (False, uniques))"

text \<open>
  \<^verbatim>\<open>filter(example, uniques, args)\<close>: \<^verbatim>\<open>check_uniques\<close> is called first, so its effect on
  the set happens whatever the later branches decide.
\<close>

definition filter_example ::
  "('c, 'h) example \<Rightarrow> 'h set \<Rightarrow> arguments \<Rightarrow> bool \<times> 'h set" where
  "filter_example example uniques args =
     (case check_uniques example uniques of (ok, uniques') \<Rightarrow>
        if \<not> ok then (False, uniques')
        else if float_lt (alpha_frac example) (min_alpha_frac args) then (False, uniques')
        else if line_len example = [] then (False, uniques')
        else (True, uniques'))"

text \<open>
  \<^verbatim>\<open>ds.filter(f, ...)\<close> without batching and without \<^verbatim>\<open>num_proc\<close> calls the
  predicate on the records one after the other, in the order of the dataset, and keeps
  the records whose verdict is true. \<open>run_check_uniques\<close> and \<open>run_filter\<close> give the
  list of verdicts and the set after the last call.
\<close>

fun run_check_uniques :: "('c, 'h) example list \<Rightarrow> 'h set \<Rightarrow> bool list \<times> 'h set" where
  "run_check_uniques [] uniques = ([], uniques)"
| "run_check_uniques (e # es) uniques =
     (case check_uniques e uniques of (b, uniques') \<Rightarrow>
        case run_check_uniques es uniques' of (bs, uniques'') \<Rightarrow> (b # bs, uniques''))"

fun run_filter ::
  "arguments \<Rightarrow> ('c, 'h) example list \<Rightarrow> 'h set \<Rightarrow> bool list \<times> 'h set" where
  "run_filter args [] uniques = ([], uniques)"
| "run_filter args (e # es) uniques =
     (case filter_example e uniques args of (b, uniques') \<Rightarrow>
        case run_filter args es uniques' of (bs, uniques'') \<Rightarrow> (b # bs, uniques''))"

definition keep :: "'a list \<Rightarrow> bool list \<Rightarrow> 'a list" where
  "keep ds verdicts = map fst (filter snd (zip ds verdicts))"

definition dataset_filter ::
  "arguments \<Rightarrow> ('c, 'h) example list \<Rightarrow> 'h set \<Rightarrow> ('c, 'h) example list" where
  "dataset_filter args ds uniques = keep ds (fst (run_filter args ds uniques))"

section \<open>Writing the shards\<close>

text \<open>
  The file system as far as the script touches it: a store from paths to the bytes of a
  regular file. Directories are not modelled, so the two calls of \<^verbatim>\<open>mkdir\<close> leave no
  trace, and a path is joined to a name with a slash.
\<close>

type_synonym 'b fs = "string \<rightharpoonup> 'b list"

text \<open>
  What can go wrong in the environment during one call of \<^verbatim>\<open>compress_file\<close>: opening the
  source, opening the target, copying (the fault carries the bytes that have reached the
  target by then), removing the source.
\<close>

datatype 'b fault =
  NoFault | OpenInputFails | OpenOutputFails | CopyFails "'b list" | UnlinkFails

text \<open>
  The keyword argument \<^verbatim>\<open>compresslevel=6\<close> of \<^verbatim>\<open>gzip.open\<close> in \<^verbatim>\<open>compress_file\<close>.
\<close>

definition compresslevel :: nat where
  "compresslevel = 6"

text \<open>
  \<^verbatim>\<open>compress_file(file_path)\<close>. \<open>gzip_bytes level data\<close> stands for the bytes of the gzip
  stream that \<^verbatim>\<open>gzip.open(..., "wb", compresslevel=level)\<close> holds once \<open>data\<close> has been
  copied into it and it has been closed. The result is the exception raised, if any,
  and the file system after the call. \<^verbatim>\<open>os.unlink\<close> is the last statement, outside both
  \<^verbatim>\<open>with\<close> blocks, so it runs only when nothing was raised before.
\<close>

definition compress_file ::
  "(nat \<Rightarrow> 'b list \<Rightarrow> 'b list) \<Rightarrow> 'b fault \<Rightarrow> string \<Rightarrow> 'b fs \<Rightarrow> error option \<times> 'b fs" where
  "compress_file gzip_bytes fault file_path fs =
     (case fs file_path of
        None \<Rightarrow> (Some OSError, fs)
      | Some content \<Rightarrow>
          (case fault of
             OpenInputFails \<Rightarrow> (Some OSError, fs)
           | OpenOutputFails \<Rightarrow> (Some OSError, fs)
           | CopyFails written \<Rightarrow> (Some OSError, fs(file_path @ ''.gz'' \<mapsto> written))
           | UnlinkFails \<Rightarrow>
               (Some OSError, fs(file_path @ ''.gz'' \<mapsto> gzip_bytes compresslevel content))
           | NoFault \<Rightarrow>
               (None,
                (fs(file_path @ ''.gz'' \<mapsto> gzip_bytes compresslevel content))
                  (file_path := None))))"

text \<open>
  \<^verbatim>\<open>a / b\<close> on integers.
\<close>

definition py_truediv :: "int \<Rightarrow> int \<Rightarrow> error + pyfloat" where
  "py_truediv a b = (if b = 0 then Inl ZeroDivisionError else Inr (Num (of_int a / of_int b)))"

text \<open>
  \<^verbatim>\<open>range(start, stop, step)\<close> and \<^verbatim>\<open>range(start, stop)\<close> as lists.
\<close>

definition py_range3 :: "int \<Rightarrow> int \<Rightarrow> int \<Rightarrow> error + int list" where
  "py_range3 start stop step =
     (if step = 0 then Inl ValueError
      else if 0 < step then
        Inr (map (\<lambda>k. start + int k * step) [0..<nat ((stop - start + step - 1) div step)])
      else
        Inr (map (\<lambda>k. start + int k * step) [0..<nat ((start - stop - step - 1) div (- step))]))"

definition py_range2 :: "int \<Rightarrow> int \<Rightarrow> int list" where
  "py_range2 start stop = map (\<lambda>k. start + int k) [0..<nat (stop - start)]"

text \<open>
  \<^verbatim>\<open>Dataset.select(indices)\<close>: the rows at the indices, in their order; a negative index
  counts from the end, and an index outside the dataset raises.
\<close>

definition select :: "'a list \<Rightarrow> int list \<Rightarrow> error + 'a list" where
  "select ds indices =
     (let size = int (length ds) in
      if list_all (\<lambda>i. - size \<le> i \<and> i < size) indices
      then Inr (map (\<lambda>i. ds ! nat (if i < 0 then i + size else i)) indices)
      else Inl IndexError)"

text \<open>
  The records of the shard that starts at \<open>index\<close>: lines 122 and 123 of the script.
\<close>

definition shard :: "'a list \<Rightarrow> int \<Rightarrow> int \<Rightarrow> error + 'a list" where
  "shard ds_filter samples index =
     (let end_index = min (int (length ds_filter)) (index + samples)
      in select ds_filter (py_range2 index end_index))"

fun collect :: "(error + 'a) list \<Rightarrow> error + 'a list" where
  "collect [] = Inr []"
| "collect (Inl e # rs) = Inl e"
| "collect (Inr x # rs) = (case collect rs of Inl e \<Rightarrow> Inl e | Inr xs \<Rightarrow> Inr (x # xs))"

text \<open>
  The groups of records that the loop of lines 120 to 124 selects, in the order of the
  loop.
\<close>

definition shards :: "'a list \<Rightarrow> int \<Rightarrow> error + 'a list list" where
  "shards ds_filter samples =
     (case py_range3 0 (int (length ds_filter)) samples of
        Inl e \<Rightarrow> Inl e
      | Inr indices \<Rightarrow> collect (map (shard ds_filter samples) indices))"

text \<open>
  \<^verbatim>\<open>f"file-{file_number+1:012}.json"\<close>: the decimal digits, padded with zeros to twelve.
\<close>

function digits :: "nat \<Rightarrow> string" where
  "digits n = (if n < 10 then [''0123456789'' ! n] else digits (n div 10) @ [''0123456789'' ! (n mod 10)])"
  by pat_completeness auto
termination
  by (relation "measure id") auto

definition file_name :: "nat \<Rightarrow> string" where
  "file_name file_number =
     (let d = digits (file_number + 1)
      in ''file-'' @ replicate (12 - length d) (CHR ''0'') @ d @ ''.json'')"

text \<open>
  The loop of lines 120 to 124 over the enumerated start indices. \<open>to_json\<close> stands for
  the serialisation of \<^verbatim>\<open>Dataset.to_json\<close>; \<open>faults\<close> gives the fault of the environment
  for each file number. The loop stops at the first exception.
\<close>

fun save_shards ::
  "(nat \<Rightarrow> 'b list \<Rightarrow> 'b list) \<Rightarrow> ('a list \<Rightarrow> 'b list) \<Rightarrow> (nat \<Rightarrow> 'b fault) \<Rightarrow> string \<Rightarrow>
   'a list \<Rightarrow> int \<Rightarrow> (nat \<times> int) list \<Rightarrow> 'b fs \<Rightarrow> error option \<times> 'b fs" where
  "save_shards gzip_bytes to_json faults data_dir ds_filter samples [] fs = (None, fs)"
| "save_shards gzip_bytes to_json faults data_dir ds_filter samples ((file_number, index) # rest) fs =
     (let file_path = data_dir @ ''/'' @ file_name file_number in
      case shard ds_filter samples index of
        Inl e \<Rightarrow> (Some e, fs)
      | Inr records \<Rightarrow>
          (case compress_file gzip_bytes (faults file_number) file_path
                  (fs(file_path \<mapsto> to_json records)) of
             (Some e, fs') \<Rightarrow> (Some e, fs')
           | (None, fs') \<Rightarrow>
               save_shards gzip_bytes to_json faults data_dir ds_filter samples rest fs'))"

text \<open>
  What the script takes from outside: the character classes and \<^verbatim>\<open>str.splitlines\<close> of
  the Python runtime, the digest, \<^verbatim>\<open>deduplicate_dataset\<close> of \<^verbatim>\<open>minhash_deduplication\<close>,
  the two serialisations and the compressor.
\<close>

record ('c, 'h, 'k, 'b) library =
  py_isspace :: "'c \<Rightarrow> bool"
  py_isalnum :: "'c \<Rightarrow> bool"
  py_splitlines :: "'c list \<Rightarrow> 'c list list"
  md5_hexdigest :: "'c list \<Rightarrow> 'h"
  deduplicate_dataset :: "('c, 'h) example list \<Rightarrow> pyfloat \<Rightarrow> ('c, 'h) example list \<times> 'k"
  json_dump :: "'k \<Rightarrow> 'b list"
  dataset_to_json :: "('c, 'h) example list \<Rightarrow> 'b list"
  gzip_stream :: "nat \<Rightarrow> 'b list \<Rightarrow> 'b list"

text \<open>
  The script from line 84 on, for the loaded dataset \<open>ds\<close> and the file system \<open>fs\<close>:
  the exception that ends the run, if any, and the file system left behind.
\<close>

definition main ::
  "('c, 'h, 'k, 'b) library \<Rightarrow> (nat \<Rightarrow> 'b fault) \<Rightarrow> arguments \<Rightarrow> 'c raw_example list \<Rightarrow> 'b fs \<Rightarrow>
   error option \<times> 'b fs" where
  "main lib faults args ds0 fs =
     (let ds = map (preprocess (py_isspace lib) (md5_hexdigest lib) (py_isalnum lib)
                      (py_splitlines lib)) ds0;
          uniques = set (map hash ds)
      in case py_truediv (int (card uniques)) (int (length ds)) of
           Inl e \<Rightarrow> (Some e, fs)
         | Inr fraction \<Rightarrow>
             (case deduplicate_dataset lib (dataset_filter args ds uniques) (jaccard_threshold args) of
                (ds_dedup, duplicate_clusters) \<Rightarrow>
                  (let fs1 = fs(output_dir args @ ''/duplicate_clusters.json'' \<mapsto>
                                  json_dump lib duplicate_clusters);
                       data_dir = output_dir args @ ''/data''
                   in case py_range3 0 (int (length ds_dedup)) (samples_per_file args) of
                        Inl e \<Rightarrow> (Some e, fs1)
                      | Inr indices \<Rightarrow>
                          save_shards (gzip_stream lib) (dataset_to_json lib) faults data_dir
                            ds_dedup (samples_per_file args) (List.enumerate 0 indices) fs1)))"

section \<open>Notions of the specification and concrete inputs\<close>

text \<open>
  Two texts differ only in their whitespace when one becomes the other by deleting and
  inserting whitespace characters: going through both from the left, the heads are the
  same character, or a whitespace character is skipped on one side.
\<close>

fun differ_only_in_whitespace :: "('c \<Rightarrow> bool) \<Rightarrow> 'c list \<Rightarrow> 'c list \<Rightarrow> bool" where
  "differ_only_in_whitespace isspace [] [] = True"
| "differ_only_in_whitespace isspace (c # s) [] =
     (isspace c \<and> differ_only_in_whitespace isspace s [])"
| "differ_only_in_whitespace isspace [] (d # t) =
     (isspace d \<and> differ_only_in_whitespace isspace [] t)"
| "differ_only_in_whitespace isspace (c # s) (d # t) =
     ((c = d \<and> differ_only_in_whitespace isspace s t)
      \<or> (isspace c \<and> differ_only_in_whitespace isspace s (d # t))
      \<or> (isspace d \<and> differ_only_in_whitespace isspace (c # s) t))"

text \<open>
  The corpus of the concrete scenario of the specification after preprocessing, with the
  whitespace-free text standing for its digest; a configuration; and two records with
  one hash, the first of which has no alphanumeric character.
\<close>

abbreviation scenario_corpus :: "(char, string) example list" where
  "scenario_corpus \<equiv>
     [\<lparr>text_col = ''ab cd'', hash = ''abcd'', alpha_frac = Num (4 / 5), line_len = [5]\<rparr>,
      \<lparr>text_col = ''abcd'', hash = ''abcd'', alpha_frac = Num 1, line_len = [4]\<rparr>,
      \<lparr>text_col = ''xy'', hash = ''xy'', alpha_frac = Num 1, line_len = [2]\<rparr>]"

abbreviation scenario_args :: arguments where
  "scenario_args \<equiv>
     \<lparr>min_alpha_frac = Num (1 / 2), jaccard_threshold = Num (17 / 20),
      samples_per_file = 2, output_dir = ''out'', compression_level = 9\<rparr>"

abbreviation dots_only :: "(char, string) example" where
  "dots_only \<equiv> \<lparr>text_col = ''. .'', hash = ''..'', alpha_frac = Num 0, line_len = [3]\<rparr>"

abbreviation dots_between :: "(char, string) example" where
  "dots_between \<equiv>
     \<lparr>text_col = ''a..b'', hash = ''..'', alpha_frac = Num (1 / 2), line_len = [4]\<rparr>"

section \<open>The unique-hash set during filtering\<close>

lemma check_uniques_eq: "check_uniques e U = (hash e \<in> U, U - {hash e})"
  by (auto simp: check_uniques_def)

lemma filter_example_snd: "snd (filter_example e U a) = U - {hash e}"
  by (simp add: filter_example_def check_uniques_eq)

lemma run_check_uniques_Cons:
  "run_check_uniques (e # es) U =
     ((hash e \<in> U) # fst (run_check_uniques es (U - {hash e})),
      snd (run_check_uniques es (U - {hash e})))"
  by (simp add: check_uniques_eq split: prod.splits)

lemma run_filter_Cons:
  "run_filter a (e # es) U =
     (fst (filter_example e U a) # fst (run_filter a es (U - {hash e})),
      snd (run_filter a es (U - {hash e})))"
proof -
  obtain b where b: "filter_example e U a = (b, U - {hash e})"
    using filter_example_snd [of e U a] by (cases "filter_example e U a") simp
  show ?thesis by (simp add: b split: prod.splits)
qed

lemma run_filter_snd: "snd (run_filter a es U) = U - hash ` set es"
proof (induction es arbitrary: U)
  case Nil
  show ?case by simp
next
  case (Cons e es)
  have "snd (run_filter a (e # es) U) = (U - {hash e}) - hash ` set es"
    by (simp only: run_filter_Cons snd_conv Cons.IH)
  also have "\<dots> = U - hash ` set (e # es)" by auto
  finally show ?case .
qed

lemma run_check_uniques_length: "length (fst (run_check_uniques es U)) = length es"
  by (induction es arbitrary: U)
     (simp_all only: run_check_uniques.simps(1) run_check_uniques_Cons fst_conv list.size)

lemma set_take_nth:
  assumes "i \<le> length xs"
  shows "(y \<in> f ` set (take i xs)) = (\<exists>j<i. f (xs ! j) = y)"
proof
  assume "y \<in> f ` set (take i xs)"
  then obtain x where x: "x \<in> set (take i xs)" and y: "y = f x" by blast
  from x obtain j where "j < length (take i xs)" and "take i xs ! j = x"
    by (auto simp: in_set_conv_nth)
  then have "j < i" and "xs ! j = x" by simp_all
  with y show "\<exists>j<i. f (xs ! j) = y" by blast
next
  assume "\<exists>j<i. f (xs ! j) = y"
  then obtain j where j: "j < i" and y: "f (xs ! j) = y" by blast
  from j assms have "take i xs ! j = xs ! j" and "j < length (take i xs)" by simp_all
  then have "xs ! j \<in> set (take i xs)" by (metis nth_mem)
  with y show "y \<in> f ` set (take i xs)" by blast
qed

text \<open>
  The verdict of the \<open>i\<close>-th call: the hash was in the set at the start and no earlier
  record bears it.
\<close>

lemma run_check_uniques_nth:
  "i < length es \<Longrightarrow>
   fst (run_check_uniques es U) ! i
     = (hash (es ! i) \<in> U \<and> hash (es ! i) \<notin> hash ` set (take i es))"
proof (induction es arbitrary: U i)
  case Nil
  then show ?case by simp
next
  case (Cons e es)
  show ?case
  proof (cases i)
    case 0
    then show ?thesis by (simp only: run_check_uniques_Cons fst_conv) simp
  next
    case (Suc k)
    with Cons.prems have k: "k < length es" by simp
    have "fst (run_check_uniques (e # es) U) ! i = fst (run_check_uniques es (U - {hash e})) ! k"
      by (simp only: run_check_uniques_Cons fst_conv Suc nth_Cons_Suc)
    also have "\<dots> = (hash (es ! k) \<in> U - {hash e} \<and> hash (es ! k) \<notin> hash ` set (take k es))"
      by (rule Cons.IH [OF k])
    also have "\<dots> = (hash ((e # es) ! i) \<in> U \<and> hash ((e # es) ! i) \<notin> hash ` set (take i (e # es)))"
      unfolding Suc by auto
    finally show ?thesis .
  qed
qed

lemma run_filter_nth_rejects:
  "i < length es \<Longrightarrow> hash (es ! i) \<notin> U \<Longrightarrow> \<not> fst (run_filter a es U) ! i"
proof (induction es arbitrary: U i)
  case Nil
  then show ?case by simp
next
  case (Cons e es)
  show ?case
  proof (cases i)
    case 0
    with Cons.prems have "hash e \<notin> U" by simp
    then have "\<not> fst (filter_example e U a)"
      by (simp add: filter_example_def check_uniques_eq)
    with 0 show ?thesis by (simp only: run_filter_Cons fst_conv) simp
  next
    case (Suc k)
    with Cons.prems have k: "k < length es" and h: "hash (es ! k) \<notin> U - {hash e}" by auto
    from Cons.IH [OF k h] show ?thesis
      unfolding run_filter_Cons fst_conv Suc by simp
  qed
qed

lemma keep_Cons: "keep (e # es) (b # bs) = (if b then e # keep es bs else keep es bs)"
  by (simp add: keep_def)

lemma keep_Nil: "keep [] bs = []"
  by (simp add: keep_def)

lemma survivors_per_hash:
  "length (filter (\<lambda>e. hash e = h) (keep es (fst (run_check_uniques es U)))) =
     (if h \<in> U \<and> h \<in> hash ` set es then 1 else 0)"
proof (induction es arbitrary: U)
  case Nil
  show ?case by (simp add: keep_Nil)
next
  case (Cons e es)
  show ?case
    unfolding run_check_uniques_Cons fst_conv keep_Cons
    using Cons.IH [of "U - {hash e}"] by auto
qed

lemma count_true:
  "finite U \<Longrightarrow> length (filter id (fst (run_check_uniques es U))) = card (U \<inter> hash ` set es)"
proof (induction es arbitrary: U)
  case Nil
  show ?case by simp
next
  case (Cons e es)
  let ?h = "hash e"
  have fin: "finite (U - {?h})" using Cons.prems by simp
  note IH = Cons.IH [OF fin]
  show ?case
  proof (cases "?h \<in> U")
    case True
    have eq: "U \<inter> hash ` set (e # es) = insert ?h ((U - {?h}) \<inter> hash ` set es)"
      using True by auto
    have "card (U \<inter> hash ` set (e # es)) = Suc (card ((U - {?h}) \<inter> hash ` set es))"
      unfolding eq by (rule card_insert_disjoint) (use fin in auto)
    with IH True show ?thesis
      unfolding run_check_uniques_Cons fst_conv by simp
  next
    case False
    then have eq: "U \<inter> hash ` set (e # es) = (U - {?h}) \<inter> hash ` set es"
      by auto
    with IH False show ?thesis
      unfolding run_check_uniques_Cons fst_conv by simp
  qed
qed

text \<open>
  Claim C1. The corpus is evaluated in iteration order, starting from the set of its
  distinct hashes. Then \<open>check_uniques\<close> returns one verdict per record; the verdict of a
  record is true exactly when no earlier record has its hash, that is, for the first
  record of each group of records with one hash and for no later one; and of every
  such group exactly one record survives.
\<close>

theorem check_uniques_first_occurrence:
  "length (fst (run_check_uniques ds (set (map hash ds)))) = length ds
   \<and> (\<forall>i<length ds.
         fst (run_check_uniques ds (set (map hash ds))) ! i
           = (\<forall>j<i. hash (ds ! j) \<noteq> hash (ds ! i)))
   \<and> (\<forall>h\<in>set (map hash ds).
         length (filter (\<lambda>e. hash e = h)
                   (keep ds (fst (run_check_uniques ds (set (map hash ds)))))) = 1)"
proof (intro conjI allI impI ballI)
  show "length (fst (run_check_uniques ds (set (map hash ds)))) = length ds"
    by (rule run_check_uniques_length)
next
  fix i assume i: "i < length ds"
  then have "hash (ds ! i) \<in> set (map hash ds)" by simp
  moreover have "(hash (ds ! i) \<in> hash ` set (take i ds)) = (\<exists>j<i. hash (ds ! j) = hash (ds ! i))"
    by (rule set_take_nth) (use i in simp)
  ultimately show "fst (run_check_uniques ds (set (map hash ds))) ! i
           = (\<forall>j<i. hash (ds ! j) \<noteq> hash (ds ! i))"
    by (simp only: run_check_uniques_nth [OF i]) blast
next
  fix h assume "h \<in> set (map hash ds)"
  then show "length (filter (\<lambda>e. hash e = h)
                   (keep ds (fst (run_check_uniques ds (set (map hash ds)))))) = 1"
    by (simp add: survivors_per_hash)
qed

text \<open>
  On the corpus of the scenario the first and the third record are accepted, and one
  record with the hash of the first two survives.
\<close>

theorem check_uniques_first_occurrence_witness:
  "fst (run_check_uniques scenario_corpus (set (map hash scenario_corpus))) = [True, False, True]
   \<and> keep scenario_corpus (fst (run_check_uniques scenario_corpus (set (map hash scenario_corpus))))
        = [scenario_corpus ! 0, scenario_corpus ! 2]
   \<and> length (filter (\<lambda>e. hash e = ''abcd'')
               (keep scenario_corpus
                  (fst (run_check_uniques scenario_corpus (set (map hash scenario_corpus)))))) = 1"
proof -
  have v: "fst (run_check_uniques scenario_corpus (set (map hash scenario_corpus)))
             = [True, False, True]"
    by (simp add: check_uniques_def)
  have "''abcd'' \<in> set (map hash scenario_corpus)" by simp
  with check_uniques_first_occurrence [of scenario_corpus]
  have "length (filter (\<lambda>e. hash e = ''abcd'')
               (keep scenario_corpus
                  (fst (run_check_uniques scenario_corpus (set (map hash scenario_corpus)))))) = 1"
    by blast
  moreover have "keep scenario_corpus [True, False, True] = [scenario_corpus ! 0, scenario_corpus ! 2]"
    by (simp add: keep_def)
  ultimately show ?thesis using v by simp
qed

text \<open>
  Claim C8. A call of \<open>check_uniques\<close> that returns true removes the hash of its record,
  which was in the set, and nothing else; a call that returns false leaves the set as
  it was. A call of \<open>filter\<close> changes the set as its call of \<open>check_uniques\<close> does. So no
  call adds an element, and over a sequence of calls of \<open>filter\<close> the set only shrinks:
  after more calls it is a subset of what it was after fewer, and of the initial set.
\<close>

theorem uniques_only_drained:
  "(case check_uniques e U of
      (b, U') \<Rightarrow> if b then hash e \<in> U \<and> U' = U - {hash e} else U' = U)
   \<and> snd (filter_example e U a) = snd (check_uniques e U)
   \<and> snd (filter_example e U a) \<subseteq> U
   \<and> snd (run_filter a (es @ es') U) \<subseteq> snd (run_filter a es U)
   \<and> snd (run_filter a es U) \<subseteq> U"
proof (intro conjI)
  show "case check_uniques e U of
      (b, U') \<Rightarrow> if b then hash e \<in> U \<and> U' = U - {hash e} else U' = U"
    by (simp add: check_uniques_def)
  show "snd (filter_example e U a) = snd (check_uniques e U)"
    by (simp add: filter_example_snd check_uniques_eq)
  show "snd (filter_example e U a) \<subseteq> U"
    by (simp add: filter_example_snd)
  show "snd (run_filter a (es @ es') U) \<subseteq> snd (run_filter a es U)"
    by (auto simp: run_filter_snd)
  show "snd (run_filter a es U) \<subseteq> U"
    by (auto simp: run_filter_snd)
qed

text \<open>
  Claim C10. After \<open>filter\<close> has been applied to every record of the corpus in order,
  starting from the set of the distinct hashes of the corpus, the set is empty; and the
  number of records at which the call of \<open>check_uniques\<close> inside \<open>filter\<close>, made on the set
  as the calls before that record left it, returned true is the number of distinct hashes.
\<close>

theorem uniques_empty_after_filter:
  "snd (run_filter a ds (set (map hash ds))) = {}
   \<and> card {i. i < length ds \<and>
              fst (check_uniques (ds ! i) (snd (run_filter a (take i ds) (set (map hash ds)))))}
       = card (set (map hash ds))"
proof
  show "snd (run_filter a ds (set (map hash ds))) = {}"
    by (simp add: run_filter_snd)
next
  let ?U = "set (map hash ds)"
  let ?bs = "fst (run_check_uniques ds ?U)"
  have same: "fst (check_uniques (ds ! i) (snd (run_filter a (take i ds) ?U))) = ?bs ! i"
    if "i < length ds" for i
    by (simp add: check_uniques_eq run_filter_snd run_check_uniques_nth [OF that])
  have "{i. i < length ds \<and> fst (check_uniques (ds ! i) (snd (run_filter a (take i ds) ?U)))}
        = {i. i < length ?bs \<and> id (?bs ! i)}"
    using same by (auto simp: run_check_uniques_length)
  also have "card \<dots> = length (filter id ?bs)"
    by (rule length_filter_conv_card [symmetric])
  also have "\<dots> = card (?U \<inter> hash ` set ds)"
    by (rule count_true) simp
  also have "?U \<inter> hash ` set ds = ?U" by auto
  finally show "card {i. i < length ds \<and>
              fst (check_uniques (ds ! i) (snd (run_filter a (take i ds) ?U)))} = card ?U" .
qed

text \<open>
  Claim C2. A call of \<open>filter\<close> leaves the set as the call of \<open>check_uniques\<close> on the same
  record and set leaves it, whatever the two heuristics say. Hence, when the hash of a
  record is still in the set and the record fails a heuristic (its \<open>alpha_frac\<close> is below
  the threshold, or its \<open>line_len\<close> is empty), the record is rejected, its hash is removed
  all the same, and every later record with the same hash is rejected.
\<close>

theorem filter_consumes_hash_first:
  "snd (filter_example e U a) = snd (check_uniques e U)
   \<and> (hash e \<in> U \<and> (float_lt (alpha_frac e) (min_alpha_frac a) \<or> line_len e = []) \<longrightarrow>
        \<not> fst (filter_example e U a)
        \<and> snd (filter_example e U a) = U - {hash e}
        \<and> (\<forall>i<length es. hash (es ! i) = hash e \<longrightarrow>
              \<not> fst (run_filter a (e # es) U) ! Suc i))"
proof (intro conjI impI allI)
  show "snd (filter_example e U a) = snd (check_uniques e U)"
    by (simp add: filter_example_snd check_uniques_eq)
next
  assume "hash e \<in> U \<and> (float_lt (alpha_frac e) (min_alpha_frac a) \<or> line_len e = [])"
  then show "\<not> fst (filter_example e U a)"
    by (auto simp: filter_example_def check_uniques_eq)
next
  show "snd (filter_example e U a) = U - {hash e}"
    by (rule filter_example_snd)
next
  fix i assume i: "i < length es" and h: "hash (es ! i) = hash e"
  from h have "hash (es ! i) \<notin> U - {hash e}" by simp
  with i have "\<not> fst (run_filter a es (U - {hash e})) ! i"
    by (rule run_filter_nth_rejects)
  then show "\<not> fst (run_filter a (e # es) U) ! Suc i"
    unfolding run_filter_Cons fst_conv by simp
qed

text \<open>
  A record without alphanumeric characters spends the hash that a later record of good
  quality shares; alone, the later record would have been accepted.
\<close>

theorem filter_consumes_hash_first_witness:
  "hash dots_only \<in> {''..''} \<and> float_lt (alpha_frac dots_only) (min_alpha_frac scenario_args)
   \<and> hash dots_between = hash dots_only
   \<and> \<not> fst (filter_example dots_only {''..''} scenario_args)
   \<and> snd (filter_example dots_only {''..''} scenario_args) = {}
   \<and> \<not> fst (run_filter scenario_args [dots_only, dots_between] {''..''}) ! 1
   \<and> fst (run_filter scenario_args [dots_between] {''..''}) = [True]"
proof -
  have h: "hash dots_only \<in> {''..''}
           \<and> (float_lt (alpha_frac dots_only) (min_alpha_frac scenario_args)
                \<or> line_len dots_only = [])"
    by simp
  note t = filter_consumes_hash_first
             [of dots_only "{''..''}" scenario_args "[dots_between]", THEN conjunct2, THEN mp, OF h]
  from t have 1: "\<not> fst (filter_example dots_only {''..''} scenario_args)" by blast
  from t have 2: "snd (filter_example dots_only {''..''} scenario_args) = {}" by simp
  from t have 3: "\<not> fst (run_filter scenario_args [dots_only, dots_between] {''..''}) ! 1" by simp
  have 4: "fst (run_filter scenario_args [dots_between] {''..''}) = [True]"
    by (simp add: filter_example_def check_uniques_def)
  from 1 2 3 4 show ?thesis by simp
qed

section \<open>Feature extraction: the hash and the alphanumeric fraction\<close>

lemma re_sub_PATTERN_filter: "re_sub_PATTERN isspace s = filter (\<lambda>c. \<not> isspace c) s"
proof (induction isspace s rule: re_sub_PATTERN.induct)
  case (1 isspace)
  show ?case by simp
next
  case (2 isspace c cs)
  show ?case
  proof (cases "isspace c")
    case True
    have "filter (\<lambda>c. \<not> isspace c) (dropWhile isspace cs) = filter (\<lambda>c. \<not> isspace c) cs"
      by (induction cs) auto
    with 2 True show ?thesis by simp
  next
    case False
    with 2 show ?thesis by simp
  qed
qed

lemma differ_filter:
  "differ_only_in_whitespace isspace s t \<Longrightarrow>
   filter (\<lambda>c. \<not> isspace c) s = filter (\<lambda>c. \<not> isspace c) t"
  by (induction isspace s t rule: differ_only_in_whitespace.induct) auto

text \<open>
  Claim C3. The hash of a record is a function of its text alone: two records with the
  same text have the same hash, whatever their other columns. And two records whose
  texts differ only in their whitespace have the same hash.
\<close>

theorem get_hash_whitespace:
  "(text_col e1 = text_col e2 \<longrightarrow> get_hash isspace md5 e1 = get_hash isspace md5 e2)
   \<and> (differ_only_in_whitespace isspace (text_col e1) (text_col e2) \<longrightarrow>
        get_hash isspace md5 e1 = get_hash isspace md5 e2)"
  by (simp add: get_hash_def re_sub_PATTERN_filter differ_filter)

text \<open>
  The first two texts of the scenario, with the identity for the digest: equal hashes
  under it are equal whitespace-free texts, so equal under every digest.
\<close>

theorem get_hash_whitespace_witness:
  "differ_only_in_whitespace ascii_isspace ''ab cd'' ''abcd''
   \<and> get_hash ascii_isspace id \<lparr>text_col = ''ab cd''\<rparr>
       = get_hash ascii_isspace id \<lparr>text_col = ''abcd''\<rparr>
   \<and> get_hash ascii_isspace id \<lparr>text_col = ''ab cd''\<rparr> = ''abcd''"
proof -
  have d: "differ_only_in_whitespace ascii_isspace ''ab cd'' ''abcd''"
    by (simp add: ascii_isspace_def)
  have d': "differ_only_in_whitespace ascii_isspace
              (text_col \<lparr>text_col = ''ab cd''\<rparr>) (text_col \<lparr>text_col = ''abcd''\<rparr>)"
    using d by simp
  have "get_hash ascii_isspace id \<lparr>text_col = ''ab cd''\<rparr>
          = get_hash ascii_isspace id \<lparr>text_col = ''abcd''\<rparr>"
    by (rule get_hash_whitespace [THEN conjunct2, THEN mp, OF d'])
  moreover have "get_hash ascii_isspace id \<lparr>text_col = ''ab cd''\<rparr> = ''abcd''"
    by (simp add: get_hash_def ascii_isspace_def)
  ultimately show ?thesis using d by simp
qed

text \<open>
  Claim C4 as stated fails at the empty text: the mean of no values is not a number, so
  the result is neither a fraction in [0,1] nor 0.0.
\<close>

theorem alpha_stats_empty_text_is_nan:
  "alpha_stats ascii_isalnum \<lparr>text_col = []\<rparr> = NaN
   \<and> alpha_stats ascii_isalnum \<lparr>text_col = []\<rparr> \<noteq> Num 0"
  by (simp add: alpha_stats_def np_mean_def)

text \<open>
  Claim C4, amended. For every text that is not empty, \<open>alpha_stats\<close> returns a number in
  [0,1], the number of alphanumeric characters of the text over the number of its
  characters; it is 0 when no character of the text is alphanumeric.
\<close>

theorem alpha_stats_fraction:
  assumes "text_col e \<noteq> []"
  shows "\<exists>q. alpha_stats isalnum e = Num q \<and> 0 \<le> q \<and> q \<le> 1
           \<and> q = rat_of_nat (length (filter isalnum (text_col e)))
                   / rat_of_nat (length (text_col e))
           \<and> ((\<forall>c\<in>set (text_col e). \<not> isalnum c) \<longrightarrow> q = 0)"
proof -
  let ?t = "text_col e"
  let ?q = "rat_of_nat (length (filter isalnum ?t)) / rat_of_nat (length ?t)"
  have cnt: "length (filter id (map isalnum ?t)) = length (filter isalnum ?t)"
    by (simp add: filter_map o_def)
  have 1: "alpha_stats isalnum e = Num ?q"
    using assms by (simp add: alpha_stats_def np_mean_def cnt)
  have pos: "0 < rat_of_nat (length ?t)" using assms by simp
  have "rat_of_nat (length (filter isalnum ?t)) \<le> rat_of_nat (length ?t)"
    by (simp only: of_nat_le_iff length_filter_le)
  then have 2: "?q \<le> 1" using pos by (simp add: pos_divide_le_eq)
  have 3: "0 \<le> ?q" by simp
  have 4: "?q = 0" if "\<forall>c\<in>set ?t. \<not> isalnum c"
  proof -
    from that have "filter isalnum ?t = []" by (simp add: filter_empty_conv)
    then show ?thesis by simp
  qed
  from 1 2 3 4 show ?thesis by blast
qed

theorem alpha_stats_fraction_witness:
  "text_col \<lparr>text_col = ''ab cd''\<rparr> \<noteq> []
   \<and> alpha_stats ascii_isalnum \<lparr>text_col = ''ab cd''\<rparr> = Num (4 / 5)
   \<and> alpha_stats ascii_isalnum \<lparr>text_col = ''  .''\<rparr> = Num 0"
proof -
  have h: "text_col \<lparr>text_col = ''ab cd''\<rparr> \<noteq> []" by simp
  obtain q where "alpha_stats ascii_isalnum \<lparr>text_col = ''ab cd''\<rparr> = Num q"
    and "q = rat_of_nat (length (filter ascii_isalnum (text_col \<lparr>text_col = ''ab cd''\<rparr>)))
              / rat_of_nat (length (text_col \<lparr>text_col = ''ab cd''\<rparr>))"
    using alpha_stats_fraction [OF h, of ascii_isalnum] by blast
  then have "alpha_stats ascii_isalnum \<lparr>text_col = ''ab cd''\<rparr> = Num (4 / 5)"
    by (simp add: ascii_isalnum_def)
  moreover have "alpha_stats ascii_isalnum \<lparr>text_col = ''  .''\<rparr> = Num 0"
    by (simp add: alpha_stats_def np_mean_def ascii_isalnum_def)
  ultimately show ?thesis by simp
qed

section \<open>The shards\<close>

lemma select_range2:
  assumes a: "0 \<le> a" and b: "b \<le> int (length ds)"
  shows "select ds (py_range2 a b) = Inr (take (nat (b - a)) (drop (nat a) ds))"
proof -
  let ?at = "\<lambda>i. ds ! nat (if i < 0 then i + int (length ds) else i)"
  have all: "list_all (\<lambda>i. - int (length ds) \<le> i \<and> i < int (length ds)) (py_range2 a b)"
    using a b by (auto simp: py_range2_def list_all_iff)
  have "map ?at (py_range2 a b) = take (nat (b - a)) (drop (nat a) ds)"
  proof (rule nth_equalityI)
    show "length (map ?at (py_range2 a b)) = length (take (nat (b - a)) (drop (nat a) ds))"
      using a b by (auto simp: py_range2_def)
  next
    fix i assume "i < length (map ?at (py_range2 a b))"
    then have i: "i < nat (b - a)" by (simp add: py_range2_def)
    then show "map ?at (py_range2 a b) ! i = take (nat (b - a)) (drop (nat a) ds) ! i"
      using a b by (simp add: py_range2_def nat_add_distrib)
  qed
  with all show ?thesis by (simp add: select_def Let_def)
qed

lemma collect_map_Inr: "collect (map Inr xs) = Inr xs"
  by (induction xs) auto

lemma concat_chunks:
  "concat (map (\<lambda>k. take m (drop (k * m) xs)) [0..<c]) = take (c * m) xs"
proof (induction c)
  case 0
  show ?case by simp
next
  case (Suc c)
  have "Suc c * m = c * m + m" by simp
  then have "take (Suc c * m) xs = take (c * m) xs @ take m (drop (c * m) xs)"
    by (simp only: take_add)
  with Suc show ?case by simp
qed

text \<open>
  The number of start indices of \<^verbatim>\<open>range(0, n, m)\<close> is \<open>(n + m - 1) div m\<close>: that many
  steps of \<open>m\<close> reach \<open>n\<close>, and every start index is below \<open>n\<close>.
\<close>

lemma ceil_div_bounds:
  fixes m n :: nat
  assumes m: "0 < m"
  shows "n \<le> ((n + m - 1) div m) * m"
    and "i < (n + m - 1) div m \<Longrightarrow> i * m < n"
proof -
  let ?c = "(n + m - 1) div m"
  have low: "?c * m \<le> n + m - 1"
    by (rule div_times_less_eq_dividend)
  have "n + m - 1 < ?c * m + m"
    using m by (metis add.commute dividend_less_div_times mult.commute)
  then show "n \<le> ?c * m" using m by simp
  show "i * m < n" if "i < ?c"
  proof -
    from that have "Suc i \<le> ?c" by simp
    then have "Suc i * m \<le> ?c * m" by (rule mult_le_mono1)
    moreover have "Suc i * m = i * m + m" by simp
    ultimately have "i * m + m \<le> n + m - 1" using low by linarith
    with m show "i * m < n" by linarith
  qed
qed

lemma ceil_div_ceiling:
  fixes m n :: nat
  assumes m: "0 < m"
  shows "int ((n + m - 1) div m) = \<lceil>rat_of_nat n / rat_of_nat m\<rceil>"
proof -
  let ?c = "(n + m - 1) div m"
  have up: "n \<le> ?c * m" by (rule ceil_div_bounds(1) [OF m])
  have mr: "0 < rat_of_nat m" using m by simp
  have "rat_of_nat n \<le> rat_of_nat (?c * m)" using up by (simp only: of_nat_le_iff)
  then have le: "rat_of_nat n / rat_of_nat m \<le> rat_of_nat ?c"
    using mr by (simp add: pos_divide_le_eq)
  have gt: "rat_of_nat ?c - 1 < rat_of_nat n / rat_of_nat m"
  proof (cases ?c)
    case 0
    have "0 \<le> rat_of_nat n / rat_of_nat m" by simp
    then have "- 1 < rat_of_nat n / rat_of_nat m" by linarith
    with 0 show ?thesis by simp
  next
    case (Suc i)
    then have "i < ?c" by simp
    then have "i * m < n" by (rule ceil_div_bounds(2) [OF m])
    then have "rat_of_nat (i * m) < rat_of_nat n" by (simp only: of_nat_less_iff)
    then have "rat_of_nat i < rat_of_nat n / rat_of_nat m"
      using mr by (simp add: pos_less_divide_eq)
    then show ?thesis using Suc by simp
  qed
  have "\<lceil>rat_of_nat n / rat_of_nat m\<rceil> = int ?c"
    by (rule ceiling_unique) (use le gt in simp_all)
  then show ?thesis by simp
qed

lemma range3_pos:
  assumes m: "0 < m"
  shows "py_range3 0 (int n) (int m) = Inr (map (\<lambda>k. int (k * m)) [0..<(n + m - 1) div m])"
proof -
  have "int n - 0 + int m - 1 = int (n + m - 1)" using m by auto
  then have "(int n - 0 + int m - 1) div int m = int ((n + m - 1) div m)"
    by (simp only: zdiv_int)
  then have "nat ((int n - 0 + int m - 1) div int m) = (n + m - 1) div m"
    by simp
  then show ?thesis using m by (simp add: py_range3_def)
qed

lemma nat_int_diff: "nat (int a - int b) = a - b"
  by arith

lemma shard_chunk:
  assumes k: "k * m < length ds"
  shows "shard ds (int m) (int (k * m)) = Inr (take m (drop (k * m) ds))"
proof -
  let ?n = "length ds"
  let ?e = "min (int ?n) (int (k * m) + int m)"
  have e: "?e \<le> int ?n" by simp
  have "int (k * m) + int m = int (k * m + m)" by simp
  then have e_nat: "?e = int (min ?n (k * m + m))" by (simp only: of_nat_min)
  have "select ds (py_range2 (int (k * m)) ?e)
        = Inr (take (nat (?e - int (k * m))) (drop (nat (int (k * m))) ds))"
    by (rule select_range2) (use e in auto)
  moreover have "take (nat (?e - int (k * m))) (drop (k * m) ds) = take m (drop (k * m) ds)"
  proof (cases "k * m + m \<le> ?n")
    case True
    then have "min ?n (k * m + m) = k * m + m" by simp
    then have "nat (?e - int (k * m)) = m" unfolding e_nat by (simp only: nat_int_diff)
    then show ?thesis by simp
  next
    case False
    then have "min ?n (k * m + m) = ?n" by simp
    then have "nat (?e - int (k * m)) = ?n - k * m" unfolding e_nat by (simp only: nat_int_diff)
    moreover have "?n - k * m \<le> m" using False by simp
    ultimately show ?thesis by simp
  qed
  ultimately show ?thesis by (simp only: shard_def Let_def nat_int)
qed

lemma shards_pos:
  assumes m: "0 < m"
  shows "shards ds (int m) =
     Inr (map (\<lambda>k. take m (drop (k * m) ds)) [0..<(length ds + m - 1) div m])"
proof -
  let ?c = "(length ds + m - 1) div m"
  have "map (shard ds (int m)) (map (\<lambda>k. int (k * m)) [0..<?c])
        = map Inr (map (\<lambda>k. take m (drop (k * m) ds)) [0..<?c])"
  proof -
    have "shard ds (int m) (int (k * m)) = Inr (take m (drop (k * m) ds))"
      if "k \<in> set [0..<?c]" for k
    proof -
      from that have "k < ?c" by simp
      then have "k * m < length ds" by (rule ceil_div_bounds(2) [OF m])
      then show ?thesis by (rule shard_chunk)
    qed
    then show ?thesis by (simp only: map_map o_def cong: map_cong)
  qed
  then show ?thesis
    by (simp only: shards_def range3_pos [OF m] sum.case collect_map_Inr)
qed

text \<open>
  Without a fault of the environment the loop writes the groups in their order: the
  file numbered \<open>k\<close> is left compressed, holding the serialisation of the \<open>k\<close>-th group,
  and its uncompressed form is removed.
\<close>

lemma collect_Inr: "collect rs = Inr xs \<Longrightarrow> rs = map Inr xs"
proof (induction rs arbitrary: xs rule: collect.induct)
  case 1
  then show ?case by simp
next
  case (2 e rs)
  then show ?case by simp
next
  case (3 x rs)
  then show ?case by (auto split: sum.splits)
qed

lemma save_shards_no_fault:
  assumes "map (shard ds samples) (map snd xs) = map Inr groups"
  shows "save_shards gzip_bytes to_json (\<lambda>_. NoFault) data_dir ds samples xs fs =
     (None,
      foldl (\<lambda>fs (file_number, records).
               (fs(data_dir @ ''/'' @ file_name file_number @ ''.gz''
                     \<mapsto> gzip_bytes 6 (to_json records)))
                 (data_dir @ ''/'' @ file_name file_number := None))
        fs (zip (map fst xs) groups))"
  using assms
proof (induction xs arbitrary: groups fs)
  case Nil
  then show ?case by simp
next
  case (Cons x xs)
  obtain file_number index where x: "x = (file_number, index)" by (cases x)
  from Cons.prems obtain g gs where groups: "groups = g # gs"
    and g: "shard ds samples index = Inr g"
    and gs: "map (shard ds samples) (map snd xs) = map Inr gs"
    by (cases groups) (auto simp: x)
  let ?p = "data_dir @ ''/'' @ file_name file_number"
  have c: "compress_file gzip_bytes NoFault ?p (fs(?p \<mapsto> to_json g))
           = (None, (fs(?p @ ''.gz'' \<mapsto> gzip_bytes 6 (to_json g)))(?p := None))"
    by (simp add: compress_file_def compresslevel_def fun_upd_twist)
  have step: "save_shards gzip_bytes to_json (\<lambda>_. NoFault) data_dir ds samples (x # xs) fs
        = save_shards gzip_bytes to_json (\<lambda>_. NoFault) data_dir ds samples xs
            ((fs(?p @ ''.gz'' \<mapsto> gzip_bytes 6 (to_json g)))(?p := None))"
    by (simp only: x save_shards.simps Let_def g sum.case c prod.case option.case)
  show ?case
    unfolding step Cons.IH [OF gs]
    by (simp only: x groups list.map fst_conv zip_Cons_Cons foldl_Cons prod.case append_assoc)
qed

lemma save_shards_of_shards:
  assumes "shards ds samples = Inr groups"
  shows "\<exists>indices. py_range3 0 (int (length ds)) samples = Inr indices
     \<and> save_shards gzip_bytes to_json (\<lambda>_. NoFault) data_dir ds samples
           (List.enumerate 0 indices) fs =
         (None,
          foldl (\<lambda>fs (file_number, records).
                   (fs(data_dir @ ''/'' @ file_name file_number @ ''.gz''
                         \<mapsto> gzip_bytes 6 (to_json records)))
                     (data_dir @ ''/'' @ file_name file_number := None))
            fs (List.enumerate 0 groups))"
proof -
  from assms obtain indices where r: "py_range3 0 (int (length ds)) samples = Inr indices"
    and c: "collect (map (shard ds samples) indices) = Inr groups"
    by (auto simp: shards_def split: sum.splits)
  from c have m: "map (shard ds samples) indices = map Inr groups" by (rule collect_Inr)
  then have "length indices = length groups" by (metis length_map)
  then have z: "zip (map fst (List.enumerate 0 indices)) groups = List.enumerate 0 groups"
    by (simp add: enumerate_eq_zip)
  have "map (shard ds samples) (map snd (List.enumerate 0 indices)) = map Inr groups"
    using m by (simp add: enumerate_eq_zip)
  from save_shards_no_fault [OF this, of gzip_bytes to_json data_dir fs] r z
  show ?thesis by simp
qed

text \<open>
  Claim C6. For a shard size above zero the loop selects consecutive groups of the final
  record sequence: their concatenation in the order of the loop is the sequence itself,
  their number is the ceiling of the length over the shard size, none is empty or
  larger than the shard size, and all but the last have exactly the shard size. These
  groups are what the loop writes, one file per group in the order of the groups.
\<close>

theorem shards_partition:
  assumes "0 < samples"
  shows "\<exists>groups. shards ds samples = Inr groups
           \<and> concat groups = ds
           \<and> int (length groups) = \<lceil>rat_of_nat (length ds) / rat_of_int samples\<rceil>
           \<and> (\<forall>i<length groups.
                 0 < length (groups ! i) \<and> int (length (groups ! i)) \<le> samples
                 \<and> (Suc i < length groups \<longrightarrow> int (length (groups ! i)) = samples))
           \<and> (\<exists>indices. py_range3 0 (int (length ds)) samples = Inr indices
                 \<and> save_shards gzip_bytes to_json (\<lambda>_. NoFault) data_dir ds samples
                       (List.enumerate 0 indices) fs =
                     (None,
                      foldl (\<lambda>fs (file_number, records).
                               (fs(data_dir @ ''/'' @ file_name file_number @ ''.gz''
                                     \<mapsto> gzip_bytes 6 (to_json records)))
                                 (data_dir @ ''/'' @ file_name file_number := None))
                        fs (List.enumerate 0 groups)))"
proof -
  define m where "m = nat samples"
  define c where "c = (length ds + m - 1) div m"
  define groups where "groups = map (\<lambda>k. take m (drop (k * m) ds)) [0..<c]"
  have m: "0 < m" and s: "samples = int m" using assms by (simp_all add: m_def)
  have 1: "shards ds samples = Inr groups"
    unfolding s groups_def c_def by (rule shards_pos [OF m])
  have "concat groups = take (c * m) ds"
    unfolding groups_def by (rule concat_chunks)
  moreover have "length ds \<le> c * m"
    unfolding c_def by (rule ceil_div_bounds(1) [OF m])
  ultimately have 2: "concat groups = ds" by simp
  have len: "length groups = c" by (simp add: groups_def)
  have 3: "int (length groups) = \<lceil>rat_of_nat (length ds) / rat_of_int samples\<rceil>"
    unfolding len c_def s using ceil_div_ceiling [OF m, of "length ds"] by simp
  have 4: "0 < length (groups ! i) \<and> int (length (groups ! i)) \<le> samples
           \<and> (Suc i < length groups \<longrightarrow> int (length (groups ! i)) = samples)"
    if "i < length groups" for i
  proof -
    from that have i: "i < c" by (simp add: len)
    then have lt: "i * m < length ds"
      unfolding c_def by (rule ceil_div_bounds(2) [OF m])
    have gi: "length (groups ! i) = min (length ds - i * m) m"
      using i by (simp add: groups_def)
    have full: "length (groups ! i) = m" if "Suc i < c"
    proof -
      from that have "Suc i * m < length ds"
        unfolding c_def by (rule ceil_div_bounds(2) [OF m])
      then have "m \<le> length ds - i * m" by simp
      then show ?thesis by (simp add: gi)
    qed
    show ?thesis using lt m full by (simp add: gi len s)
  qed
  note 5 = save_shards_of_shards [OF 1, of gzip_bytes to_json data_dir fs]
  from 1 2 3 4 5 show ?thesis by blast
qed

text \<open>
  Five records in shards of two: three shards, the last of one record.
\<close>

theorem shards_partition_witness:
  "(0::int) < 2
   \<and> shards [10, 20, 30, 40, 50 :: nat] 2 = Inr [[10, 20], [30, 40], [50]]
   \<and> concat [[10, 20], [30, 40], [50 :: nat]] = [10, 20, 30, 40, 50]
   \<and> int (length [[10, 20], [30, 40], [50 :: nat]])
       = \<lceil>rat_of_nat (length [10, 20, 30, 40, 50 :: nat]) / rat_of_int 2\<rceil>"
proof -
  have h: "(0::int) < 2" by simp
  obtain groups where g: "shards [10, 20, 30, 40, 50 :: nat] 2 = Inr groups"
    and c: "concat groups = [10, 20, 30, 40, 50]"
    and l: "int (length groups)
              = \<lceil>rat_of_nat (length [10, 20, 30, 40, 50 :: nat]) / rat_of_int 2\<rceil>"
    using shards_partition [OF h, of "[10, 20, 30, 40, 50 :: nat]"] by blast
  have e: "shards [10, 20, 30, 40, 50 :: nat] 2 = Inr [[10, 20], [30, 40], [50]]"
    by code_simp
  with g have "groups = [[10, 20], [30, 40], [50]]" by simp
  with h e c l show ?thesis by simp
qed

section \<open>The run on an empty corpus\<close>

text \<open>
  Claim C5 does not hold of the script: on a corpus without records the run does not
  reach the clusterer or the writer. Line 92 divides by the length of the dataset, so
  the run ends there with \<^verbatim>\<open>ZeroDivisionError\<close> and the file system is as it was: no
  cluster mapping and no shard are written.
\<close>

theorem main_empty_corpus_raises:
  "main lib faults args [] fs = (Some ZeroDivisionError, fs)"
  by (simp add: main_def py_truediv_def)

section \<open>Compression\<close>

text \<open>
  Claim C7. When \<open>compress_file\<close> returns without an exception, the uncompressed file is
  gone and the compressed file holds the whole gzip stream of what the uncompressed
  file held, so exactly one of the two exists and the compressed one is complete. When
  it raises, the uncompressed file is as it was before the call, and the exception
  reaches the caller: the loop over the shards ends with it, in the file system that
  the call left. A compressed file that is cut short exists only in that case.
\<close>

theorem compress_file_outcome:
  "(case compress_file gzip_bytes fault file_path fs of
      (None, fs') \<Rightarrow>
        fs' file_path = None
        \<and> (\<exists>content. fs file_path = Some content
              \<and> fs' (file_path @ ''.gz'') = Some (gzip_bytes compresslevel content))
    | (Some e, fs') \<Rightarrow> fs' file_path = fs file_path)
   \<and> (case shard ds samples index of
        Inl e \<Rightarrow> True
      | Inr records \<Rightarrow>
          (case compress_file gzip_bytes (faults file_number)
                  (data_dir @ ''/'' @ file_name file_number)
                  (fs(data_dir @ ''/'' @ file_name file_number \<mapsto> to_json records)) of
             (None, fs') \<Rightarrow> True
           | (Some e, fs') \<Rightarrow>
               save_shards gzip_bytes to_json faults data_dir ds samples
                 ((file_number, index) # rest) fs = (Some e, fs')))"
proof
  show "case compress_file gzip_bytes fault file_path fs of
      (None, fs') \<Rightarrow>
        fs' file_path = None
        \<and> (\<exists>content. fs file_path = Some content
              \<and> fs' (file_path @ ''.gz'') = Some (gzip_bytes compresslevel content))
    | (Some e, fs') \<Rightarrow> fs' file_path = fs file_path"
    by (cases "fs file_path"; cases fault) (simp_all add: compress_file_def)
next
  show "case shard ds samples index of
        Inl e \<Rightarrow> True
      | Inr records \<Rightarrow>
          (case compress_file gzip_bytes (faults file_number)
                  (data_dir @ ''/'' @ file_name file_number)
                  (fs(data_dir @ ''/'' @ file_name file_number \<mapsto> to_json records)) of
             (None, fs') \<Rightarrow> True
           | (Some e, fs') \<Rightarrow>
               save_shards gzip_bytes to_json faults data_dir ds samples
                 ((file_number, index) # rest) fs = (Some e, fs'))"
    by (simp add: Let_def split: sum.splits prod.splits option.splits)
qed

text \<open>
  Claim C9 as stated fails: the level that \<open>compress_file\<close> passes to gzip is the
  constant 6, and a configuration can ask for another level, here 9.
\<close>

theorem compresslevel_not_configured:
  "compresslevel = 6 \<and> compression_level scenario_args = 9
   \<and> compresslevel \<noteq> compression_level scenario_args"
  by (simp add: compresslevel_def)

text \<open>
  Claim C9, amended. Every file that \<open>compress_file\<close> compresses is compressed at level
  6: the function takes the path alone, and no option of the configuration reaches it.
\<close>

theorem compress_file_fixed_level:
  assumes "fs file_path = Some content"
  shows "compress_file gzip_bytes NoFault file_path fs
           = (None, (fs(file_path @ ''.gz'' \<mapsto> gzip_bytes 6 content))(file_path := None))"
  using assms by (simp add: compress_file_def compresslevel_def)

text \<open>
  With a compressor that puts its level in front of the data, the level is seen in the
  file that is left.
\<close>

theorem compress_file_fixed_level_witness:
  "[''f.json'' \<mapsto> [1, 2, 3 :: nat]] ''f.json'' = Some [1, 2, 3]
   \<and> compress_file (#) NoFault ''f.json'' [''f.json'' \<mapsto> [1, 2, 3 :: nat]]
        = (None, [''f.json.gz'' \<mapsto> [6, 1, 2, 3]])"
proof -
  have h: "[''f.json'' \<mapsto> [1, 2, 3 :: nat]] ''f.json'' = Some [1, 2, 3]" by simp
  have "([''f.json'' \<mapsto> [1, 2, 3 :: nat]](''f.json.gz'' \<mapsto> [6, 1, 2, 3]))(''f.json'' := None)
        = [''f.json.gz'' \<mapsto> [6, 1, 2, 3]]"
    by (rule ext) simp
  with compress_file_fixed_level
         [of "[''f.json'' \<mapsto> [1, 2, 3 :: nat]]" "''f.json''" "[1, 2, 3]" "(#)", OF h] h
  show ?thesis by simp
qed

end
